theory Spec2Isabelle
  imports Complex_Main "HOL-Library.Sublist"
begin

section \<open>Python strings\<close>

text \<open>
  A Python \<open>str\<close> is a sequence of Unicode code points; a code point is a natural
  number. \<open>str\<close> turns an ASCII literal into such a sequence.
\<close>

type_synonym pystr = "nat list"

definition str :: "string \<Rightarrow> pystr" where
  "str s = map of_char s"

text \<open>
  \<open>str.isspace\<close> on one code point: the code points that CPython's
  \<open>_PyUnicode_IsWhitespace\<close> accepts. Line feed is 10, carriage return 13.
\<close>

definition isspace :: "nat \<Rightarrow> bool" where
  "isspace c \<longleftrightarrow>
     (9 \<le> c \<and> c \<le> 13) \<or> (28 \<le> c \<and> c \<le> 32) \<or> c = 133 \<or> c = 160 \<or> c = 5760 \<or>
     (8192 \<le> c \<and> c \<le> 8202) \<or> c = 8232 \<or> c = 8233 \<or> c = 8239 \<or> c = 8287 \<or> c = 12288"

definition strip :: "pystr \<Rightarrow> pystr" where
  "strip s = rev (dropWhile isspace (rev (dropWhile isspace s)))"

text \<open>\<open>line.rstrip("\n")\<close>: every trailing line feed is removed, nothing else.\<close>

definition rstrip_nl :: "pystr \<Rightarrow> pystr" where
  "rstrip_nl s = rev (dropWhile (\<lambda>c. c = 10) (rev s))"

definition startswith :: "pystr \<Rightarrow> pystr \<Rightarrow> bool" where
  "startswith s p \<longleftrightarrow> take (length p) s = p"

text \<open>\<open>str(n)\<close> for a non-negative integer, as the f-strings format it.\<close>

function str_nat :: "nat \<Rightarrow> pystr" where
  "str_nat n = (if n < 10 then [48 + n] else str_nat (n div 10) @ [48 + n mod 10])"
  by pat_completeness auto
termination
  by (relation "measure id") auto

declare str_nat.simps [simp del]

section \<open>Reading the input file\<close>

text \<open>
  \<open>open(path, "r", encoding="utf-8", errors="ignore")\<close> leaves \<open>newline\<close> at its
  default \<open>None\<close>: the stream is in universal-newlines mode, where \<open>\r\n\<close> and a
  lone \<open>\r\<close> are both handed to the program as \<open>\n\<close>. The model starts from the
  decoded text of the file (undecodable bytes are already dropped by
  \<open>errors="ignore"\<close>, so decoding never raises).
\<close>

fun translate_newlines :: "pystr \<Rightarrow> pystr" where
  "translate_newlines [] = []"
| "translate_newlines (c # cs) =
     (if c = 13 then
        (case cs of
           [] \<Rightarrow> [10]
         | d # ds \<Rightarrow> if d = 10 then 10 # translate_newlines ds else 10 # translate_newlines cs)
      else c # translate_newlines cs)"

text \<open>
  Iterating over the file object yields the lines, each with its terminating line
  feed; the last one has none when the text does not end in a line feed.
\<close>

fun iter_lines :: "pystr \<Rightarrow> pystr list" where
  "iter_lines [] = []"
| "iter_lines (c # cs) =
     (if c = 10 then [10] # iter_lines cs
      else (case iter_lines cs of
              [] \<Rightarrow> [[c]]
            | l # ls \<Rightarrow> (c # l) # ls))"

text \<open>Line 16: \<open>lines = [line.rstrip("\n") for line in f]\<close>.\<close>

definition read_lines :: "pystr \<Rightarrow> pystr list" where
  "read_lines text = map rstrip_nl (iter_lines (translate_newlines text))"

section \<open>The parser\<close>

type_synonym entry = "pystr \<times> pystr"

text \<open>
  The inner loop of lines 38 to 45, started at \<open>j\<close>: it returns the final value of
  \<open>j\<close> and of \<open>url_line\<close>, which is still the empty string when no line
  qualified.
\<close>

function find_url :: "pystr list \<Rightarrow> nat \<Rightarrow> nat \<times> pystr" where
  "find_url lines j =
     (if j < length lines then
        (let candidate = strip (lines ! j) in
         if candidate = [] \<or> startswith candidate (str ''#'') then find_url lines (j + 1)
         else (j, lines ! j))
      else (j, []))"
  by pat_completeness auto
termination
  by (relation "measure (\<lambda>(lines, j). length lines - j)") auto

declare find_url.simps [simp del]

lemma find_url_bounds:
  "find_url lines s = (j, u) \<Longrightarrow> s \<le> j \<and> (u \<noteq> [] \<longrightarrow> j < length lines \<and> u = lines ! j)"
proof (induction lines s rule: find_url.induct)
  case (1 lines j')
  show ?case
  proof (cases "j' < length lines")
    case False
    with "1.prems" show ?thesis by (simp add: find_url.simps[of lines j'])
  next
    case True
    show ?thesis
    proof (cases "strip (lines ! j') = [] \<or> startswith (strip (lines ! j')) (str ''#'')")
      case skip: True
      with True "1.prems" have "find_url lines (j' + 1) = (j, u)"
        by (simp add: find_url.simps[of lines j'])
      with "1.IH"[OF True refl skip] show ?thesis by simp
    next
      case found: False
      with True "1.prems" show ?thesis
        by (auto simp: find_url.simps[of lines j'])
    qed
  qed
qed

text \<open>
  The outer loop of lines 24 to 56, with the loop variables \<open>i\<close>,
  \<open>seen_first_extinf\<close>, \<open>header_lines\<close> and \<open>entries\<close> as arguments.
\<close>

function parse_loop ::
  "pystr list \<Rightarrow> nat \<Rightarrow> bool \<Rightarrow> pystr list \<Rightarrow> entry list \<Rightarrow> pystr list \<times> entry list" where
  "parse_loop lines i seen_first_extinf header_lines entries =
     (if i < length lines then
        (let line = strip (lines ! i) in
         if \<not> seen_first_extinf \<and> \<not> startswith line (str ''#EXTINF'') then
           parse_loop lines (i + 1) seen_first_extinf (header_lines @ [lines ! i]) entries
         else if startswith line (str ''#EXTINF'') then
           (case find_url lines (i + 1) of
              (j, url_line) \<Rightarrow>
                if url_line \<noteq> [] then
                  parse_loop lines (j + 1) True header_lines (entries @ [(lines ! i, url_line)])
                else parse_loop lines (i + 1) True header_lines entries)
         else parse_loop lines (i + 1) seen_first_extinf header_lines entries)
      else (header_lines, entries))"
  by pat_completeness auto
termination
  by (relation "measure (\<lambda>(lines, i, s, h, e). length lines - i)")
     (auto dest!: find_url_bounds[OF sym])

declare parse_loop.simps [simp del]

definition parse_lines :: "pystr list \<Rightarrow> pystr list \<times> entry list" where
  "parse_lines lines = parse_loop lines 0 False [] []"

section \<open>The validator\<close>

text \<open>
  The exceptions the program can meet. A user interrupt reaches the program as a
  \<open>KeyboardInterrupt\<close>, raised in the call the program is waiting in; it is the
  only one of them that is not a subclass of Python's \<open>Exception\<close>.
\<close>

datatype exn =
  OSError | ValueError | TypeError | URLError | HTTPError | TimeoutError | Other_Exception |
  KeyboardInterrupt

fun is_Exception :: "exn \<Rightarrow> bool" where
  "is_Exception KeyboardInterrupt = False"
| "is_Exception ex = True"

record request =
  full_url :: pystr
  headers :: "(pystr \<times> pystr) list"

text \<open>
  A response: \<open>status\<close> is \<open>None\<close> for a handler that sets none (comparing it
  with 200 then raises \<open>TypeError\<close>); \<open>body\<close> is what reading gives, the bytes
  that are there or an exception.
\<close>

record response =
  status :: "int option"
  body :: "exn + nat list"

definition read :: "response \<Rightarrow> nat \<Rightarrow> exn + nat list" where
  "read resp n = (case body resp of Inl e \<Rightarrow> Inl e | Inr bs \<Rightarrow> Inr (take n bs))"

text \<open>
  The constructor \<open>urllib.request.Request(url, headers=...)\<close> of the standard
  library. Its \<open>full_url\<close> setter runs \<open>unwrap\<close>, \<open>_splittag\<close> and then
  \<open>_parse\<close>, which raises \<open>ValueError("unknown url type")\<close> when \<open>_splittype\<close>
  finds no scheme: the regular expression \<open>([^/:]+):(.*)\<close> must match at the start
  of the URL. The constructor then calls \<open>request_host\<close>, whose \<open>urlparse\<close> can
  raise \<open>ValueError\<close> on a malformed host; that check is the parameter
  \<open>urlparse_ok\<close>.
\<close>

definition unwrap :: "pystr \<Rightarrow> pystr" where
  "unwrap url0 =
     (let url = strip url0;
          url = (if take 1 url = str ''<'' \<and> take 1 (rev url) = str ''>''
                 then strip (butlast (drop 1 url)) else url)
      in if take 4 url = str ''URL:'' then strip (drop 4 url) else url)"

definition splittag :: "pystr \<Rightarrow> pystr" where
  "splittag url =
     (if 35 \<in> set url then rev (drop 1 (dropWhile (\<lambda>c. c \<noteq> 35) (rev url))) else url)"

definition type_known :: "pystr \<Rightarrow> bool" where
  "type_known url =
     (let scheme = takeWhile (\<lambda>c. c \<noteq> 47 \<and> c \<noteq> 58) url
      in scheme \<noteq> [] \<and> take 1 (drop (length scheme) url) = [58])"

definition Request :: "(pystr \<Rightarrow> bool) \<Rightarrow> pystr \<Rightarrow> (pystr \<times> pystr) list \<Rightarrow> exn + request" where
  "Request urlparse_ok url hdrs =
     (let full = splittag (unwrap url) in
      if \<not> type_known full then Inl ValueError
      else if \<not> urlparse_ok full then Inl ValueError
      else Inr \<lparr>full_url = full, headers = hdrs\<rparr>)"

text \<open>The body of the \<open>try\<close> statement of lines 74 to 84.\<close>

definition try_open_and_read ::
  "(request \<Rightarrow> real \<Rightarrow> exn + response) \<Rightarrow> request \<Rightarrow> real \<Rightarrow> exn + bool" where
  "try_open_and_read urlopen req timeout =
     (case urlopen req timeout of
        Inl e \<Rightarrow> Inl e
      | Inr resp \<Rightarrow>
          (case status resp of
             None \<Rightarrow> Inl TypeError
           | Some s \<Rightarrow>
               if s < 200 \<or> s \<ge> 300 then Inr False
               else (case read resp 1024 of
                       Inl e \<Rightarrow> Inl e
                     | Inr chunk \<Rightarrow> if chunk = [] then Inr False else Inr True)))"

text \<open>
  \<open>test_url\<close>: the request is built before the \<open>try\<close> (lines 66 to 72), so
  what the constructor raises leaves the function. The clause of line 85 catches
  the three classes it names, the clause of line 87 every other \<open>Exception\<close>;
  what is not an \<open>Exception\<close> leaves the function.
\<close>

definition test_url ::
  "(pystr \<Rightarrow> bool) \<Rightarrow> (request \<Rightarrow> real \<Rightarrow> exn + response) \<Rightarrow> pystr \<Rightarrow> real \<Rightarrow> exn + bool" where
  "test_url urlparse_ok urlopen url timeout =
     (case Request urlparse_ok url [(str ''User-Agent'', str ''Mozilla/5.0 (Kodi-Check/1.0)'')] of
        Inl e \<Rightarrow> Inl e
      | Inr req \<Rightarrow>
          (case try_open_and_read urlopen req timeout of
             Inr b \<Rightarrow> Inr b
           | Inl e \<Rightarrow>
               if e = URLError \<or> e = HTTPError \<or> e = TimeoutError then Inr False
               else if is_Exception e then Inr False
               else Inl e))"

section \<open>The environment and the effects of a run\<close>

text \<open>
  What a run depends on: the decoded text of each file that can be opened for
  reading, the paths that can be opened for writing, the host check of the request
  constructor, what \<open>urlopen\<close> does at the \<open>n\<close>-th probe, and whether a user
  interrupt arrives during the \<open>time.sleep\<close> after the \<open>n\<close>-th probe. During a
  probe the interrupt is an outcome of \<open>urlopen\<close> or of reading the body.
\<close>

record env =
  files :: "pystr \<rightharpoonup> pystr"
  writable :: "pystr \<Rightarrow> bool"
  urlparse_ok :: "pystr \<Rightarrow> bool"
  urlopen :: "nat \<Rightarrow> request \<Rightarrow> real \<Rightarrow> exn + response"
  sleep_interrupted :: "nat \<Rightarrow> bool"

text \<open>
  What a run does, in order: opening and reading the input, a \<open>print\<close>, a call of
  \<open>test_url\<close>, the \<open>time.sleep(0.3)\<close>, opening the output for writing (which
  creates or empties it), and one \<open>out.write\<close>.
\<close>

datatype event =
  Read_file pystr | Print pystr | Probe pystr | Sleep | Open_write pystr | Write pystr

fun is_output :: "event \<Rightarrow> bool" where
  "is_output (Open_write p) = True"
| "is_output (Write s) = True"
| "is_output ev = False"


fun probed :: "event list \<Rightarrow> pystr list" where
  "probed [] = []"
| "probed (Probe u # evs) = u # probed evs"
| "probed (ev # evs) = probed evs"

fun written_text :: "event list \<Rightarrow> pystr" where
  "written_text [] = []"
| "written_text (Write s # evs) = s @ written_text evs"
| "written_text (ev # evs) = written_text evs"

text \<open>The content of the output file after the run; \<open>None\<close> when it was never opened.\<close>

definition written :: "event list \<Rightarrow> pystr option" where
  "written evs = (if list_ex is_output evs then Some (written_text evs) else None)"

definition first_line :: "pystr \<Rightarrow> pystr" where
  "first_line text = takeWhile (\<lambda>c. c \<noteq> 10) text"

text \<open>\<open>parse_m3u\<close>: opening the file can fail; nothing after that can.\<close>

definition parse_m3u :: "(pystr \<rightharpoonup> pystr) \<Rightarrow> pystr \<Rightarrow> exn + (pystr list \<times> entry list)" where
  "parse_m3u fs path =
     (case fs path of
        None \<Rightarrow> Inl OSError
      | Some text \<Rightarrow> Inr (parse_lines (read_lines text)))"

section \<open>The orchestration\<close>

text \<open>
  The loop of lines 99 to 112 from entry number \<open>idx\<close> on, over the entries that
  are left: it returns what it did and either the exception that ended it or the
  final \<open>working_entries\<close>. \<open>n_entries\<close> is \<open>len(entries)\<close>.
\<close>

fun probe_loop ::
  "env \<Rightarrow> int option \<Rightarrow> nat \<Rightarrow> nat \<Rightarrow> entry list \<Rightarrow> entry list \<Rightarrow> event list \<times> (exn + entry list)" where
  "probe_loop e max_channels n_entries idx [] working_entries = ([], Inr working_entries)"
| "probe_loop e max_channels n_entries idx ((extinf, url) # rest) working_entries =
     (if (case max_channels of None \<Rightarrow> False | Some k \<Rightarrow> int idx > k) then ([], Inr working_entries)
      else
        (let testing = Print (str ''['' @ str_nat idx @ str ''/'' @ str_nat n_entries @ str ''] Testing: '' @ url) in
         case test_url (urlparse_ok e) (urlopen e idx) url 5 of
           Inl ex \<Rightarrow> ([testing, Probe url], Inl ex)
         | Inr ok \<Rightarrow>
             (let verdict = Print (if ok then str ''  '' @ [8594] @ str '' OK''
                                    else str ''  '' @ [8594] @ str '' FAILED'');
                  (evs, r) = probe_loop e max_channels n_entries (idx + 1) rest
                               (if ok then working_entries @ [(extinf, url)] else working_entries)
              in if sleep_interrupted e idx
                 then ([testing, Probe url, verdict, Sleep], Inl KeyboardInterrupt)
                 else ([testing, Probe url, verdict, Sleep] @ evs, r))))"

text \<open>Lines 116 to 118.\<close>

definition ensure_marker :: "pystr list \<Rightarrow> pystr list" where
  "ensure_marker header_lines =
     (if header_lines = [] \<or> \<not> startswith (strip (hd header_lines)) (str ''#EXTM3U'')
      then [str ''#EXTM3U''] @ header_lines else header_lines)"

text \<open>Lines 121 to 125: the strings given to \<open>out.write\<close>, in order.\<close>

definition playlist_writes :: "pystr list \<Rightarrow> entry list \<Rightarrow> pystr list" where
  "playlist_writes header_lines working_entries =
     map (\<lambda>line. line @ [10]) header_lines @
     concat (map (\<lambda>(extinf, url). [extinf @ [10], url @ [10]]) working_entries)"

definition clean_m3u :: "env \<Rightarrow> pystr \<Rightarrow> pystr \<Rightarrow> int option \<Rightarrow> event list \<times> exn option" where
  "clean_m3u e input_path output_path max_channels =
     (case parse_m3u (files e) input_path of
        Inl ex \<Rightarrow> ([Read_file input_path], Some ex)
      | Inr (header_lines, entries) \<Rightarrow>
          (let loaded = Print (str ''Loaded '' @ str_nat (length entries) @ str '' channels from '' @ input_path);
               (evs, r) = probe_loop e max_channels (length entries) 1 entries []
           in case r of
                Inl ex \<Rightarrow> ([Read_file input_path, loaded] @ evs, Some ex)
              | Inr working_entries \<Rightarrow>
                  (let count = Print ([10] @ str ''Working channels: '' @ str_nat (length working_entries));
                       before = [Read_file input_path, loaded] @ evs @ [count]
                   in if \<not> writable e output_path then (before, Some OSError)
                      else (before @ [Open_write output_path] @
                            map Write (playlist_writes (ensure_marker header_lines) working_entries) @
                            [Print (str ''Cleaned playlist written to: '' @ output_path)], None))))"


section \<open>The parser on lists\<close>

text \<open>
  Two conditions the parser tests on a raw line: its trimmed form starts with
  \<open>#EXTINF\<close>; its trimmed form is empty or starts with \<open>#\<close>.
\<close>

definition is_extinf :: "pystr \<Rightarrow> bool" where
  "is_extinf l \<longleftrightarrow> startswith (strip l) (str ''#EXTINF'')"

definition skippable :: "pystr \<Rightarrow> bool" where
  "skippable l \<longleftrightarrow> strip l = [] \<or> startswith (strip l) (str ''#'')"

text \<open>
  For the proofs, the two loops are restated on the list of the lines that are left
  instead of on an index: \<open>next_url\<close> is the inner loop and gives the line found
  with the lines after it, \<open>parse_tail\<close> is the outer loop. \<open>parse_loop_tail\<close>
  proves that the index loops compute the same.
\<close>

fun next_url :: "pystr list \<Rightarrow> (pystr \<times> pystr list) option" where
  "next_url [] = None"
| "next_url (l # ls) = (if skippable l then next_url ls else Some (l, ls))"

lemma next_url_length: "next_url ls = Some (u, rest) \<Longrightarrow> length rest < length ls"
  by (induction ls) (auto split: if_splits)

function parse_tail :: "bool \<Rightarrow> pystr list \<Rightarrow> pystr list \<times> entry list" where
  "parse_tail seen [] = ([], [])"
| "parse_tail seen (l # ls) =
     (if \<not> seen \<and> \<not> is_extinf l then (l # fst (parse_tail seen ls), snd (parse_tail seen ls))
      else if is_extinf l then
        (case next_url ls of
           Some (u, rest) \<Rightarrow> (fst (parse_tail True rest), (l, u) # snd (parse_tail True rest))
         | None \<Rightarrow> parse_tail True ls)
      else parse_tail seen ls)"
  by pat_completeness auto
termination
  by (relation "measure (\<lambda>(seen, ls). length ls)") (auto dest: next_url_length)

lemma strip_Nil: "strip [] = []"
  by (simp add: strip_def)

lemma not_skippable_nonempty: "\<not> skippable u \<Longrightarrow> u \<noteq> []"
  by (auto simp: skippable_def strip_Nil)

lemma find_url_None:
  "next_url ls = None \<Longrightarrow> snd (find_url (pre @ ls) (length pre)) = []"
proof (induction ls arbitrary: pre)
  case Nil
  show ?case by (simp add: find_url.simps[of pre "length pre"])
next
  case (Cons l ls)
  from Cons.prems have sk: "skippable l" and nx: "next_url ls = None"
    by (auto split: if_splits)
  from Cons.IH[OF nx, of "pre @ [l]"] sk show ?case
    by (simp add: find_url.simps[of "pre @ l # ls" "length pre"] skippable_def)
qed

lemma find_url_Some:
  "next_url ls = Some (u, rest) \<Longrightarrow>
   \<exists>j. find_url (pre @ ls) (length pre) = (j, u) \<and> u \<noteq> [] \<and> j < length (pre @ ls) \<and>
       drop (Suc j) (pre @ ls) = rest"
proof (induction ls arbitrary: pre)
  case Nil
  then show ?case by simp
next
  case (Cons l ls)
  show ?case
  proof (cases "skippable l")
    case True
    with Cons.prems have nx: "next_url ls = Some (u, rest)" by simp
    from Cons.IH[OF nx, of "pre @ [l]"] True show ?thesis
      by (simp add: find_url.simps[of "pre @ l # ls" "length pre"] skippable_def)
  next
    case False
    with Cons.prems have "u = l" "rest = ls" by simp_all
    with False not_skippable_nonempty[OF False] show ?thesis
      by (simp add: find_url.simps[of "pre @ l # ls" "length pre"] skippable_def)
  qed
qed

lemma parse_loop_tail:
  "parse_loop (pre @ ls) (length pre) seen hs es =
     (hs @ fst (parse_tail seen ls), es @ snd (parse_tail seen ls))"
proof (induction seen ls arbitrary: pre hs es rule: parse_tail.induct)
  case (1 seen)
  show ?case by (simp add: parse_loop.simps[of pre "length pre"])
next
  case (2 seen l ls)
  let ?lines = "pre @ l # ls"
  have lines: "?lines = (pre @ [l]) @ ls" and len: "length pre + 1 = length (pre @ [l])"
    by simp_all
  have unfold: "parse_loop ?lines (length pre) seen hs es =
     (if \<not> seen \<and> \<not> is_extinf l then
        parse_loop ?lines (length pre + 1) seen (hs @ [l]) es
      else if is_extinf l then
        (case find_url ?lines (length pre + 1) of
           (j, url_line) \<Rightarrow>
             if url_line \<noteq> [] then parse_loop ?lines (j + 1) True hs (es @ [(l, url_line)])
             else parse_loop ?lines (length pre + 1) True hs es)
      else parse_loop ?lines (length pre + 1) seen hs es)"
    by (subst parse_loop.simps) (simp add: is_extinf_def split: prod.splits)
  show ?case
  proof (cases "\<not> seen \<and> \<not> is_extinf l")
    case True
    have "parse_loop ?lines (length pre + 1) seen (hs @ [l]) es =
        ((hs @ [l]) @ fst (parse_tail seen ls), es @ snd (parse_tail seen ls))"
      unfolding lines len by (rule "2.IH"(1)[OF True])
    with True show ?thesis unfolding unfold by simp
  next
    case nohead: False
    show ?thesis
    proof (cases "is_extinf l")
      case ext: True
      show ?thesis
      proof (cases "next_url ls")
        case None
        from find_url_None[OF None, of "pre @ [l]"]
        have "snd (find_url ?lines (length pre + 1)) = []" by simp
        moreover have "parse_loop ?lines (length pre + 1) True hs es =
            (hs @ fst (parse_tail True ls), es @ snd (parse_tail True ls))"
          unfolding lines len by (rule "2.IH"(3)[OF nohead ext None])
        ultimately show ?thesis using nohead ext None
          unfolding unfold by (auto split: prod.splits)
      next
        case (Some p)
        obtain u rest where p: "p = (u, rest)" by (cases p)
        from find_url_Some[OF Some[unfolded p], of "pre @ [l]"]
        obtain j where j: "find_url ?lines (length pre + 1) = (j, u)" "u \<noteq> []"
          "j < length ?lines" "drop (Suc j) ?lines = rest"
          by auto
        have split: "?lines = take (Suc j) ?lines @ rest"
          using j(4) by (metis append_take_drop_id)
        have tlen: "j + 1 = length (take (Suc j) ?lines)"
          using j(3) by simp
        have "parse_loop ?lines (j + 1) True hs (es @ [(l, u)]) =
            (hs @ fst (parse_tail True rest), (es @ [(l, u)]) @ snd (parse_tail True rest))"
          apply (subst split)
          apply (subst tlen)
          apply (rule "2.IH"(4)[OF nohead ext Some p[symmetric]])
          done
        with nohead ext Some p j(1,2) show ?thesis
          unfolding unfold by simp
      qed
    next
      case False
      have "parse_loop ?lines (length pre + 1) seen hs es =
          (hs @ fst (parse_tail seen ls), es @ snd (parse_tail seen ls))"
        unfolding lines len by (rule "2.IH"(6)[OF nohead False])
      with nohead False show ?thesis unfolding unfold by simp
    qed
  qed
qed

lemma parse_lines_tail: "parse_lines ls = parse_tail False ls"
  using parse_loop_tail[of "[]" ls False "[]" "[]"] by (simp add: parse_lines_def)

lemma next_url_not_skippable: "next_url ls = Some (u, rest) \<Longrightarrow> \<not> skippable u"
  by (induction ls) (auto split: if_splits)

lemma next_url_suffix:
  "next_url ls = Some (u, rest) \<Longrightarrow>
   \<exists>skipped. ls = skipped @ u # rest \<and> (\<forall>l\<in>set skipped. skippable l)"
proof (induction ls)
  case Nil
  then show ?case by simp
next
  case (Cons l ls)
  show ?case
  proof (cases "skippable l")
    case True
    with Cons obtain skipped where "ls = skipped @ u # rest" "\<forall>l\<in>set skipped. skippable l"
      by auto
    with True have "l # ls = (l # skipped) @ u # rest \<and> (\<forall>l\<in>set (l # skipped). skippable l)"
      by simp
    then show ?thesis by blast
  next
    case False
    with Cons.prems have "l # ls = [] @ u # rest" by simp
    then show ?thesis by fastforce
  qed
qed

lemma parse_tail_induct [case_names Nil Header Entry Dangling Skip]:
  assumes "\<And>seen. P seen []"
    and "\<And>seen l ls. \<not> seen \<Longrightarrow> \<not> is_extinf l \<Longrightarrow> P seen ls \<Longrightarrow> P seen (l # ls)"
    and "\<And>seen l ls u rest. is_extinf l \<Longrightarrow> next_url ls = Some (u, rest) \<Longrightarrow> P True rest \<Longrightarrow>
           P seen (l # ls)"
    and "\<And>seen l ls. is_extinf l \<Longrightarrow> next_url ls = None \<Longrightarrow> P True ls \<Longrightarrow> P seen (l # ls)"
    and "\<And>seen l ls. seen \<Longrightarrow> \<not> is_extinf l \<Longrightarrow> P seen ls \<Longrightarrow> P seen (l # ls)"
  shows "P seen ls"
proof (induction seen ls rule: parse_tail.induct)
  case (1 seen)
  show ?case by (rule assms(1))
next
  case (2 seen l ls)
  show ?case
  proof (cases "is_extinf l")
    case True
    then have nohead: "\<not> (\<not> seen \<and> \<not> is_extinf l)" by simp
    show ?thesis
    proof (cases "next_url ls")
      case None
      from assms(4)[OF True None "2.IH"(3)[OF nohead True None]] show ?thesis .
    next
      case (Some p)
      obtain u rest where p: "p = (u, rest)" by (cases p)
      from assms(3)[OF True Some[unfolded p] "2.IH"(4)[OF nohead True Some p[symmetric]]]
      show ?thesis .
    qed
  next
    case False
    show ?thesis
    proof (cases seen)
      case True
      then have nohead: "\<not> (\<not> seen \<and> \<not> is_extinf l)" by simp
      from assms(5)[OF True False "2.IH"(6)[OF nohead False]] show ?thesis .
    next
      case nseen: False
      with False have "\<not> seen \<and> \<not> is_extinf l" by simp
      from assms(2)[OF nseen False "2.IH"(1)[OF this]] show ?thesis .
    qed
  qed
qed

lemma parse_tail_Header:
  "\<not> seen \<Longrightarrow> \<not> is_extinf l \<Longrightarrow>
   parse_tail seen (l # ls) = (l # fst (parse_tail seen ls), snd (parse_tail seen ls))"
  by simp

lemma parse_tail_Entry:
  "is_extinf l \<Longrightarrow> next_url ls = Some (u, rest) \<Longrightarrow>
   parse_tail seen (l # ls) = (fst (parse_tail True rest), (l, u) # snd (parse_tail True rest))"
  by simp

lemma parse_tail_Dangling:
  "is_extinf l \<Longrightarrow> next_url ls = None \<Longrightarrow> parse_tail seen (l # ls) = parse_tail True ls"
  by simp

lemma parse_tail_Skip:
  "seen \<Longrightarrow> \<not> is_extinf l \<Longrightarrow> parse_tail seen (l # ls) = parse_tail seen ls"
  by simp

declare parse_tail.simps(2) [simp del]

lemmas parse_tail_cases = parse_tail_Header parse_tail_Entry parse_tail_Dangling parse_tail_Skip

lemma parse_tail_entries:
  "(x, u) \<in> set (snd (parse_tail seen ls)) \<Longrightarrow> is_extinf x \<and> \<not> skippable u"
  by (induction seen ls rule: parse_tail_induct)
     (auto simp: parse_tail_cases dest: next_url_not_skippable)

lemma parse_tail_header_subset: "set (fst (parse_tail seen ls)) \<subseteq> set ls"
  by (induction seen ls rule: parse_tail_induct)
     (auto simp: parse_tail_cases dest!: next_url_suffix)

lemma parse_tail_header_plain: "l \<in> set (fst (parse_tail seen ls)) \<Longrightarrow> \<not> is_extinf l"
  by (induction seen ls rule: parse_tail_induct) (auto simp: parse_tail_cases)

lemma parse_tail_entries_subset:
  "(x, u) \<in> set (snd (parse_tail seen ls)) \<Longrightarrow> x \<in> set ls \<and> u \<in> set ls"
  by (induction seen ls rule: parse_tail_induct)
     (auto simp: parse_tail_cases dest!: next_url_suffix)

lemma parse_m3u_Inr:
  "parse_m3u fs path = Inr r \<longleftrightarrow>
     (\<exists>content. fs path = Some content \<and> r = parse_tail False (read_lines content))"
  by (auto simp: parse_m3u_def parse_lines_tail split: option.splits)

section \<open>The probe loop and the run\<close>

text \<open>
  The entries that the loop reaches when it starts at number \<open>idx\<close>: all of them
  without \<open>max_channels\<close>, else those whose number is at most \<open>max_channels\<close>.
\<close>

definition within_limit :: "int option \<Rightarrow> nat \<Rightarrow> entry list \<Rightarrow> entry list" where
  "within_limit max_channels idx entries =
     (case max_channels of None \<Rightarrow> entries | Some k \<Rightarrow> take (nat (k + 1 - int idx)) entries)"

lemma within_limit_Nil: "within_limit m idx [] = []"
  by (simp add: within_limit_def split: option.splits)

lemma within_limit_stop:
  "(case m of None \<Rightarrow> False | Some k \<Rightarrow> int idx > k) \<Longrightarrow> within_limit m idx entries = []"
  by (cases m) (simp_all add: within_limit_def)

lemma within_limit_go:
  "\<not> (case m of None \<Rightarrow> False | Some k \<Rightarrow> int idx > k) \<Longrightarrow>
   within_limit m idx (x # entries) = x # within_limit m (idx + 1) entries"
proof (cases m)
  case None
  then show ?thesis by (simp add: within_limit_def)
next
  case (Some k)
  assume "\<not> (case m of None \<Rightarrow> False | Some k \<Rightarrow> int idx > k)"
  with Some have le: "int idx \<le> k" by simp
  then obtain d where d: "nat (k + 1 - int idx) = Suc d" "nat (k + 1 - int (idx + 1)) = d"
    by (cases "nat (k + 1 - int idx)") auto
  with Some show ?thesis by (simp add: within_limit_def)
qed

lemma probe_loop_Cons:
  "probe_loop e m n idx ((extinf, url) # rest) acc =
     (if (case m of None \<Rightarrow> False | Some k \<Rightarrow> int idx > k) then ([], Inr acc)
      else case test_url (urlparse_ok e) (urlopen e idx) url 5 of
             Inl ex \<Rightarrow>
               ([Print (str ''['' @ str_nat idx @ str ''/'' @ str_nat n @ str ''] Testing: '' @ url),
                 Probe url], Inl ex)
           | Inr ok \<Rightarrow>
               ([Print (str ''['' @ str_nat idx @ str ''/'' @ str_nat n @ str ''] Testing: '' @ url),
                 Probe url,
                 Print (if ok then str ''  '' @ [8594] @ str '' OK'' else str ''  '' @ [8594] @ str '' FAILED''),
                 Sleep] @
                (if sleep_interrupted e idx then []
                 else fst (probe_loop e m n (idx + 1) rest (if ok then acc @ [(extinf, url)] else acc))),
                if sleep_interrupted e idx then Inl KeyboardInterrupt
                else snd (probe_loop e m n (idx + 1) rest (if ok then acc @ [(extinf, url)] else acc))))"
  by (simp add: Let_def split: sum.splits prod.splits)

declare probe_loop.simps(2) [simp del]

lemma probe_loop_no_output: "\<not> list_ex is_output (fst (probe_loop e m n idx entries acc))"
proof (induction entries arbitrary: idx acc)
  case Nil
  show ?case by simp
next
  case (Cons x entries)
  obtain extinf url where x: "x = (extinf, url)" by (cases x)
  show ?case using Cons.IH
    by (simp add: x probe_loop_Cons split: sum.splits)
qed

lemma probe_loop_probed_prefix:
  "prefix (probed (fst (probe_loop e m n idx entries acc))) (map snd (within_limit m idx entries))"
proof (induction entries arbitrary: idx acc)
  case Nil
  show ?case by simp
next
  case (Cons x entries)
  obtain extinf url where x: "x = (extinf, url)" by (cases x)
  show ?case
  proof (cases "case m of None \<Rightarrow> False | Some k \<Rightarrow> int idx > k")
    case True
    then show ?thesis by (simp add: x probe_loop_Cons)
  next
    case False
    with Cons.IH show ?thesis
      by (simp add: x probe_loop_Cons within_limit_go split: sum.splits)
  qed
qed

lemma probe_loop_result:
  "snd (probe_loop e m n idx entries acc) = Inr w \<Longrightarrow>
   (\<exists>w'. w = acc @ w' \<and> subseq w' (within_limit m idx entries)) \<and>
   probed (fst (probe_loop e m n idx entries acc)) = map snd (within_limit m idx entries)"
proof (induction entries arbitrary: idx acc)
  case Nil
  then show ?case by (simp add: within_limit_Nil)
next
  case (Cons x entries)
  obtain extinf url where x: "x = (extinf, url)" by (cases x)
  show ?case
  proof (cases "case m of None \<Rightarrow> False | Some k \<Rightarrow> int idx > k")
    case True
    with Cons.prems show ?thesis by (simp add: x probe_loop_Cons within_limit_stop)
  next
    case False
    show ?thesis
    proof (cases "test_url (urlparse_ok e) (urlopen e idx) url 5")
      case (Inl ex)
      with False Cons.prems show ?thesis by (simp add: x probe_loop_Cons)
    next
      case (Inr ok)
      let ?acc = "if ok then acc @ [(extinf, url)] else acc"
      from False Inr Cons.prems have awake: "\<not> sleep_interrupted e idx"
        by (auto simp: x probe_loop_Cons split: if_splits)
      from False Inr Cons.prems
      have "snd (probe_loop e m n (idx + 1) entries ?acc) = Inr w"
        by (simp add: x probe_loop_Cons split: if_splits)
      from Cons.IH[OF this] obtain w' where
        w': "w = ?acc @ w'" "subseq w' (within_limit m (idx + 1) entries)"
        and pr: "probed (fst (probe_loop e m n (idx + 1) entries ?acc)) =
                 map snd (within_limit m (idx + 1) entries)"
        by blast
      have "\<exists>w''. w = acc @ w'' \<and> subseq w'' (x # within_limit m (idx + 1) entries)"
      proof (cases ok)
        case True
        with w' have "w = acc @ (x # w')" "subseq (x # w') (x # within_limit m (idx + 1) entries)"
          by (simp_all add: x)
        then show ?thesis by blast
      next
        case False
        with w' have "w = acc @ w'" "subseq w' (x # within_limit m (idx + 1) entries)"
          by (simp_all add: list_emb_Cons)
        then show ?thesis by blast
      qed
      with False Inr pr awake show ?thesis
        by (simp add: x probe_loop_Cons within_limit_go)
    qed
  qed
qed

lemma written_text_append: "written_text (xs @ ys) = written_text xs @ written_text ys"
  by (induction xs rule: written_text.induct) simp_all

lemma written_text_no_output: "\<not> list_ex is_output evs \<Longrightarrow> written_text evs = []"
proof (induction evs)
  case Nil
  show ?case by simp
next
  case (Cons ev evs)
  then show ?case by (cases ev) simp_all
qed

lemma written_text_Writes: "written_text (map Write ws) = concat ws"
  by (induction ws) simp_all

lemma probed_append: "probed (xs @ ys) = probed xs @ probed ys"
  by (induction xs rule: probed.induct) simp_all

lemma probed_Writes: "probed (map Write ws) = []"
  by (induction ws) simp_all

text \<open>The run of \<open>clean_m3u\<close>, in its three outcomes after a successful parse.\<close>

lemma clean_m3u_parsed:
  assumes "parse_m3u (files e) inp = Inr (h, es)"
  shows "clean_m3u e inp out m =
     (let loaded = Print (str ''Loaded '' @ str_nat (length es) @ str '' channels from '' @ inp);
          evs = fst (probe_loop e m (length es) 1 es [])
      in case snd (probe_loop e m (length es) 1 es []) of
           Inl ex \<Rightarrow> ([Read_file inp, loaded] @ evs, Some ex)
         | Inr w \<Rightarrow>
             (let before = [Read_file inp, loaded] @ evs @
                           [Print ([10] @ str ''Working channels: '' @ str_nat (length w))]
              in if \<not> writable e out then (before, Some OSError)
                 else (before @ [Open_write out] @
                       map Write (playlist_writes (ensure_marker h) w) @
                       [Print (str ''Cleaned playlist written to: '' @ out)], None)))"
  using assms by (simp add: clean_m3u_def Let_def split: prod.splits sum.splits)

lemma clean_m3u_completes:
  assumes "clean_m3u e inp out m = (evs, None)"
  shows "\<exists>h es w. parse_m3u (files e) inp = Inr (h, es) \<and>
           snd (probe_loop e m (length es) 1 es []) = Inr w \<and> writable e out \<and>
           written evs = Some (concat (playlist_writes (ensure_marker h) w)) \<and>
           probed evs = probed (fst (probe_loop e m (length es) 1 es []))"
proof (cases "parse_m3u (files e) inp")
  case (Inl ex)
  with assms show ?thesis by (simp add: clean_m3u_def)
next
  case (Inr p)
  obtain h es where p: "p = (h, es)" by (cases p)
  note run = clean_m3u_parsed[OF Inr[unfolded p], of out m]
  show ?thesis
  proof (cases "snd (probe_loop e m (length es) 1 es [])")
    case (Inl ex)
    with assms run show ?thesis by (simp add: Let_def)
  next
    case w: (Inr w)
    show ?thesis
    proof (cases "writable e out")
      case False
      with assms run w show ?thesis by (simp add: Let_def)
    next
      case True
      with assms run w have evs: "evs = [Read_file inp,
          Print (str ''Loaded '' @ str_nat (length es) @ str '' channels from '' @ inp)] @
          fst (probe_loop e m (length es) 1 es []) @
          [Print ([10] @ str ''Working channels: '' @ str_nat (length w))] @ [Open_write out] @
          map Write (playlist_writes (ensure_marker h) w) @
          [Print (str ''Cleaned playlist written to: '' @ out)]"
        by (simp add: Let_def)
      have "written evs = Some (concat (playlist_writes (ensure_marker h) w))"
        unfolding written_def evs
        by (simp add: written_text_append written_text_Writes
            written_text_no_output[OF probe_loop_no_output])
      moreover have "probed evs = probed (fst (probe_loop e m (length es) 1 es []))"
        unfolding evs by (simp add: probed_append probed_Writes)
      ultimately show ?thesis using Inr p w True by blast
    qed
  qed
qed

section \<open>Facts about reading lines\<close>

lemma translate_newlines_no_cr: "13 \<notin> set (translate_newlines t)"
  by (induction t rule: translate_newlines.induct) (auto split: list.splits)

lemma translate_newlines_id: "13 \<notin> set t \<Longrightarrow> translate_newlines t = t"
  by (induction t rule: translate_newlines.induct) (auto split: list.splits)

lemma iter_lines_shape:
  "l \<in> set (iter_lines t) \<Longrightarrow>
   set l \<subseteq> set t \<and> (\<exists>x. 10 \<notin> set x \<and> (l = x \<or> l = x @ [10]))"
proof (induction t arbitrary: l)
  case Nil
  then show ?case by simp
next
  case (Cons c cs)
  show ?case
  proof (cases "c = 10")
    case True
    with Cons.prems have "l = [] @ [10] \<or> l \<in> set (iter_lines cs)" by simp
    then show ?thesis
    proof
      assume "l = [] @ [10]"
      then have "set l \<subseteq> set (c # cs)" "(10::nat) \<notin> set []" "l = [] \<or> l = [] @ [10]"
        using True by simp_all
      then show ?thesis by blast
    next
      assume "l \<in> set (iter_lines cs)"
      from Cons.IH[OF this] show ?thesis by auto
    qed
  next
    case False
    show ?thesis
    proof (cases "iter_lines cs")
      case Nil
      with False Cons.prems have l: "l = [c]" by simp
      with False have "set l \<subseteq> set (c # cs)" "10 \<notin> set [c]" "l = [c] \<or> l = [c] @ [10]"
        by simp_all
      then show ?thesis by blast
    next
      case (Cons l' ls)
      with False Cons.prems have "l = c # l' \<or> l \<in> set ls" by simp
      then show ?thesis
      proof
        assume l: "l = c # l'"
        have "l' \<in> set (iter_lines cs)" using Cons by simp
        from Cons.IH[OF this] obtain x where
          x: "set l' \<subseteq> set cs" "10 \<notin> set x" "l' = x \<or> l' = x @ [10]" by blast
        with False l have "set l \<subseteq> set (c # cs)" "10 \<notin> set (c # x)"
          "l = c # x \<or> l = (c # x) @ [10]" by auto
        then show ?thesis by blast
      next
        assume "l \<in> set ls"
        then have "l \<in> set (iter_lines cs)" using Cons by simp
        from Cons.IH[OF this] show ?thesis by auto
      qed
    qed
  qed
qed

lemma rstrip_nl_plain: "10 \<notin> set x \<Longrightarrow> rstrip_nl x = x"
proof -
  assume "10 \<notin> set x"
  then have "dropWhile (\<lambda>c. c = 10) (rev x) = rev x"
    by (cases "rev x") (auto simp: rev_eq_Cons_iff)
  then show ?thesis by (simp add: rstrip_nl_def)
qed

lemma rstrip_nl_terminated: "10 \<notin> set x \<Longrightarrow> rstrip_nl (x @ [10]) = x"
  using rstrip_nl_plain[of x] by (simp add: rstrip_nl_def)

lemma read_lines_clean:
  assumes "l \<in> set (read_lines t)"
  shows "10 \<notin> set l \<and> 13 \<notin> set l"
proof -
  from assms obtain l' where l': "l' \<in> set (iter_lines (translate_newlines t))" "l = rstrip_nl l'"
    by (auto simp: read_lines_def)
  from iter_lines_shape[OF l'(1)] obtain x where
    x: "set l' \<subseteq> set (translate_newlines t)" "10 \<notin> set x" "l' = x \<or> l' = x @ [10]"
    by blast
  from x(2,3) l'(2) have "l = x" by (auto simp: rstrip_nl_plain rstrip_nl_terminated)
  moreover from x(1,3) have "set x \<subseteq> set (translate_newlines t)" by auto
  ultimately show ?thesis using x(2) translate_newlines_no_cr[of t] by auto
qed

lemma iter_lines_line: "10 \<notin> set l \<Longrightarrow> iter_lines (l @ 10 # rest) = (l @ [10]) # iter_lines rest"
  by (induction l) simp_all

text \<open>Lines put back into a text, each one ended by a line feed.\<close>

definition join_lines :: "pystr list \<Rightarrow> pystr" where
  "join_lines ls = concat (map (\<lambda>l. l @ [10]) ls)"

lemma iter_lines_join:
  "\<forall>l\<in>set ls. 10 \<notin> set l \<Longrightarrow> iter_lines (join_lines ls) = map (\<lambda>l. l @ [10]) ls"
  by (induction ls) (simp_all add: join_lines_def iter_lines_line)

lemma read_lines_join:
  assumes "\<forall>l\<in>set ls. 10 \<notin> set l \<and> 13 \<notin> set l"
  shows "read_lines (join_lines ls) = ls"
proof -
  from assms have "13 \<notin> set (join_lines ls)" by (auto simp: join_lines_def)
  then have "read_lines (join_lines ls) = map rstrip_nl (iter_lines (join_lines ls))"
    by (simp add: read_lines_def translate_newlines_id)
  also have "\<dots> = map rstrip_nl (map (\<lambda>l. l @ [10]) ls)"
    using assms by (simp add: iter_lines_join)
  also have "\<dots> = ls"
    using assms by (induction ls) (simp_all add: rstrip_nl_terminated)
  finally show ?thesis .
qed

section \<open>Facts about the parser\<close>

lemma startswith_prefix: "startswith s (p @ q) \<Longrightarrow> startswith s p"
proof -
  assume "startswith s (p @ q)"
  then have eq: "take (length (p @ q)) s = p @ q" by (simp add: startswith_def)
  have "take (length p) s = take (length p) (take (length (p @ q)) s)" by (simp add: min_def)
  also have "\<dots> = p" unfolding eq by simp
  finally show ?thesis by (simp add: startswith_def)
qed

lemma is_extinf_skippable: "is_extinf l \<Longrightarrow> skippable l"
proof -
  have "str ''#EXTINF'' = str ''#'' @ str ''EXTINF''" by (simp add: str_def)
  moreover assume "is_extinf l"
  ultimately have "startswith (strip l) (str ''#'')"
    using startswith_prefix[of "strip l" "str ''#''" "str ''EXTINF''"] by (simp add: is_extinf_def)
  then show ?thesis by (simp add: skippable_def)
qed

lemma next_url_None_iff: "next_url ls = None \<longleftrightarrow> (\<forall>l\<in>set ls. skippable l)"
  by (induction ls) auto

lemma next_url_append_Some:
  "next_url ls = Some (u, rest) \<Longrightarrow> next_url (ls @ xs) = Some (u, rest @ xs)"
  by (induction ls) (auto split: if_splits)

lemma next_url_append_None: "next_url ls = None \<Longrightarrow> next_url (ls @ xs) = next_url xs"
  by (induction ls) (auto split: if_splits)

lemma parse_tail_all_skippable: "next_url ls = None \<Longrightarrow> parse_tail True ls = ([], [])"
proof (induction ls)
  case Nil
  show ?case by simp
next
  case (Cons l ls)
  then have nx: "next_url ls = None" by (auto split: if_splits)
  show ?case
  proof (cases "is_extinf l")
    case True
    with nx Cons.IH show ?thesis by (simp add: parse_tail_Dangling)
  next
    case False
    with nx Cons.IH show ?thesis by (simp add: parse_tail_Skip)
  qed
qed

lemma parse_tail_dangling_suffix:
  assumes "is_extinf orphan" and "next_url xs = None"
  shows "parse_tail seen (ls @ orphan # xs) = parse_tail seen ls"
proof (induction seen ls rule: parse_tail_induct)
  case (Nil seen)
  from assms show ?case by (simp add: parse_tail_Dangling parse_tail_all_skippable)
next
  case (Header seen l ls)
  then show ?case by (simp add: parse_tail_Header)
next
  case (Entry seen l ls u rest)
  from next_url_append_Some[OF Entry(2)] Entry(1,3) Entry(2) show ?case
    by (simp add: parse_tail_Entry)
next
  case (Dangling seen l ls)
  from assms have "next_url (orphan # xs) = None" by (simp add: is_extinf_skippable)
  with next_url_append_None[OF Dangling(2)] have "next_url (ls @ orphan # xs) = None" by simp
  with Dangling show ?case by (simp add: parse_tail_Dangling)
next
  case (Skip seen l ls)
  then show ?case by (simp add: parse_tail_Skip)
qed

lemma parse_tail_no_extinf: "\<forall>l\<in>set ls. \<not> is_extinf l \<Longrightarrow> parse_tail False ls = (ls, [])"
  by (induction ls) (simp_all add: parse_tail_Header)

text \<open>The lines of a sequence of entries: metadata line, then URL line.\<close>

definition entry_lines :: "entry list \<Rightarrow> pystr list" where
  "entry_lines es = concat (map (\<lambda>(extinf, url). [extinf, url]) es)"

lemma parse_tail_entry_lines:
  "\<forall>(x, u)\<in>set es. is_extinf x \<and> \<not> skippable u \<Longrightarrow> parse_tail seen (entry_lines es) = ([], es)"
proof (induction es arbitrary: seen)
  case Nil
  show ?case by (simp add: entry_lines_def)
next
  case (Cons p es)
  obtain x u where p: "p = (x, u)" by (cases p)
  with Cons.prems have ok: "is_extinf x" "\<not> skippable u" by simp_all
  have lines: "entry_lines ((x, u) # es) = x # u # entry_lines es" by (simp add: entry_lines_def)
  from ok(2) have "next_url (u # entry_lines es) = Some (u, entry_lines es)" by simp
  from parse_tail_Entry[OF ok(1) this, of seen] Cons.IH[of True] Cons.prems show ?case
    by (simp add: lines p)
qed

lemma parse_tail_roundtrip:
  assumes "\<forall>l\<in>set h. \<not> is_extinf l" and "\<forall>(x, u)\<in>set es. is_extinf x \<and> \<not> skippable u"
  shows "parse_tail False (h @ entry_lines es) = (h, es)"
  using assms(1)
proof (induction h)
  case Nil
  from parse_tail_entry_lines[OF assms(2)] show ?case by simp
next
  case (Cons l h)
  then show ?case by (simp add: parse_tail_Header)
qed

lemma playlist_writes_join: "concat (playlist_writes h es) = join_lines (h @ entry_lines es)"
proof -
  have "concat (concat (map (\<lambda>(extinf, url). [extinf @ [10], url @ [10]]) es)) =
        join_lines (entry_lines es)"
    by (induction es) (auto simp: join_lines_def entry_lines_def)
  then show ?thesis by (simp add: playlist_writes_def join_lines_def)
qed

lemma entry_lines_subset: "l \<in> set (entry_lines es) \<Longrightarrow> \<exists>x u. (x, u) \<in> set es \<and> (l = x \<or> l = u)"
  by (auto simp: entry_lines_def)

section \<open>Facts about the run\<close>

lemma str_nat_digit: "n < 10 \<Longrightarrow> str_nat n = [48 + n]"
  by (simp add: str_nat.simps[of n])

lemma within_limit_prefix: "prefix (within_limit m idx es) es"
  by (cases m) (simp_all add: within_limit_def take_is_prefix)

lemma within_limit_subseq: "subseq (within_limit m idx es) es"
  by (rule prefix_imp_subseq[OF within_limit_prefix])



lemma clean_m3u_probed:
  assumes "parse_m3u (files e) inp = Inr (h, es)"
  shows "probed (fst (clean_m3u e inp out m)) = probed (fst (probe_loop e m (length es) 1 es []))"
  by (simp add: clean_m3u_parsed[OF assms] Let_def probed_append probed_Writes
      split: sum.splits)




lemma parse_m3u_lines_clean:
  assumes "parse_m3u fs path = Inr (h, es)"
  shows "(\<forall>l\<in>set h. 10 \<notin> set l \<and> 13 \<notin> set l) \<and>
         (\<forall>(x, u)\<in>set es. 10 \<notin> set x \<and> 13 \<notin> set x \<and> 10 \<notin> set u \<and> 13 \<notin> set u)"
proof -
  from assms obtain content where
    p: "parse_tail False (read_lines content) = (h, es)"
    unfolding parse_m3u_Inr by metis
  have h: "h = fst (parse_tail False (read_lines content))"
    and e: "es = snd (parse_tail False (read_lines content))"
    by (simp_all add: p)
  have "\<forall>l\<in>set h. l \<in> set (read_lines content)"
    using parse_tail_header_subset[of False "read_lines content"] unfolding h by auto
  moreover have "\<forall>(x, u)\<in>set es. x \<in> set (read_lines content) \<and> u \<in> set (read_lines content)"
    unfolding e by (auto dest: parse_tail_entries_subset)
  ultimately show ?thesis using read_lines_clean by fast
qed

lemma first_line_terminated: "10 \<notin> set l \<Longrightarrow> first_line (l @ 10 # rest) = l"
  by (auto simp: first_line_def takeWhile_tail)

lemma playlist_writes_first:
  "concat (playlist_writes (l # h) w) = l @ 10 # concat (playlist_writes h w)"
  by (simp add: playlist_writes_def)


lemma translate_newlines_crlf:
  "13 \<notin> set l \<Longrightarrow> translate_newlines (l @ 13 # 10 # rest) = l @ 10 # translate_newlines rest"
  by (induction l) auto

text \<open>Lines put into a text with CRLF line ends.\<close>

definition join_crlf :: "pystr list \<Rightarrow> pystr" where
  "join_crlf ls = concat (map (\<lambda>l. l @ [13, 10]) ls)"

lemma translate_newlines_join_crlf:
  "\<forall>l\<in>set ls. 13 \<notin> set l \<Longrightarrow> translate_newlines (join_crlf ls) = join_lines ls"
  by (induction ls) (simp_all add: join_crlf_def join_lines_def translate_newlines_crlf)

lemma read_lines_join_crlf:
  assumes "\<forall>l\<in>set ls. 10 \<notin> set l \<and> 13 \<notin> set l"
  shows "read_lines (join_crlf ls) = ls"
proof -
  from assms have "13 \<notin> set (join_lines ls)" by (auto simp: join_lines_def)
  then have "read_lines (join_lines ls) = map rstrip_nl (iter_lines (join_lines ls))"
    by (simp add: read_lines_def translate_newlines_id)
  moreover from assms have "read_lines (join_crlf ls) = map rstrip_nl (iter_lines (join_lines ls))"
    by (simp add: read_lines_def translate_newlines_join_crlf)
  ultimately show ?thesis using read_lines_join[OF assms] by simp
qed



lemma no_output_written: "\<not> list_ex is_output evs \<Longrightarrow> written evs = None"
  by (simp add: written_def)

section \<open>Sample playlists\<close>

text \<open>
  A playlist with a marker line that carries an attribute and two entries, in an
  environment where the first probe finds a live stream and every later one times
  out.
\<close>

definition demo_text :: pystr where
  "demo_text =
     str ''#EXTM3U x'' @ [10] @ str ''#EXTINF:-1,A'' @ [10] @ str ''http://a'' @ [10] @
     str ''#EXTINF:-1,B'' @ [10] @ str ''http://b'' @ [10]"

definition demo_env :: env where
  "demo_env =
     \<lparr>files = [str ''in'' \<mapsto> demo_text],
      writable = (\<lambda>p. True),
      urlparse_ok = (\<lambda>u. True),
      urlopen = (\<lambda>n req timeout.
        if n = 1 then Inr \<lparr>status = Some 200, body = Inr [71]\<rparr> else Inl TimeoutError),
      sleep_interrupted = (\<lambda>n. False)\<rparr>"

text \<open>A playlist whose last metadata line has only a blank line after it.\<close>

definition orphan_text :: pystr where
  "orphan_text =
     str ''#EXTINF:-1,A'' @ [10] @ str ''http://a'' @ [10] @ str ''#EXTINF:-1,Orphan'' @ [10] @ [10]"

text \<open>A file without metadata lines.\<close>

definition plain_text :: pystr where
  "plain_text = str ''#EXTM3U'' @ [10] @ str ''notes'' @ [10]"

lemmas string_eval = str_def strip_def isspace_def startswith_def is_extinf_def skippable_def

lemma demo_lines:
  "read_lines demo_text =
     [str ''#EXTM3U x'', str ''#EXTINF:-1,A'', str ''http://a'', str ''#EXTINF:-1,B'', str ''http://b'']"
  by (simp add: demo_text_def read_lines_def rstrip_nl_def str_def)

lemma demo_parse:
  "parse_m3u (files demo_env) (str ''in'') =
     Inr ([str ''#EXTM3U x''],
          [(str ''#EXTINF:-1,A'', str ''http://a''), (str ''#EXTINF:-1,B'', str ''http://b'')])"
proof -
  have "parse_tail False (read_lines demo_text) =
     ([str ''#EXTM3U x''],
      [(str ''#EXTINF:-1,A'', str ''http://a''), (str ''#EXTINF:-1,B'', str ''http://b'')])"
    unfolding demo_lines by (simp add: parse_tail_cases string_eval)
  then show ?thesis
    by (simp add: parse_m3u_def demo_env_def parse_lines_tail)
qed

lemma orphan_lines:
  "read_lines orphan_text = [str ''#EXTINF:-1,A'', str ''http://a'', str ''#EXTINF:-1,Orphan'', []]"
  by (simp add: orphan_text_def read_lines_def rstrip_nl_def str_def)

lemma orphan_parse_before:
  "parse_lines (take 2 (read_lines orphan_text)) = ([], [(str ''#EXTINF:-1,A'', str ''http://a'')])"
  unfolding orphan_lines parse_lines_tail by (simp add: parse_tail_cases string_eval)

lemma plain_lines: "read_lines plain_text = [str ''#EXTM3U'', str ''notes'']"
  by (simp add: plain_text_def read_lines_def rstrip_nl_def str_def)
text \<open>The same playlist as \<open>demo_text\<close> without the attribute, with CRLF line ends.\<close>

definition crlf_text :: pystr where
  "crlf_text =
     str ''#EXTM3U'' @ [13, 10] @ str ''#EXTINF:-1,A'' @ [13, 10] @ str ''http://a'' @ [13, 10]"

definition crlf_env :: env where
  "crlf_env = demo_env\<lparr>files := [str ''in'' \<mapsto> crlf_text]\<rparr>"

text \<open>A playlist whose only entry has a relative path as its URL line.\<close>

definition relative_text :: pystr where
  "relative_text = str ''#EXTINF:-1,A'' @ [10] @ str ''stream.ts'' @ [10]"

definition relative_env :: env where
  "relative_env = demo_env\<lparr>files := [str ''in'' \<mapsto> relative_text]\<rparr>"

lemmas request_eval = test_url_def Request_def unwrap_def splittag_def type_known_def
  try_open_and_read_def read_def

lemma demo_probe_loop:
  "probe_loop demo_env None 2 1
     [(str ''#EXTINF:-1,A'', str ''http://a''), (str ''#EXTINF:-1,B'', str ''http://b'')] [] =
   ([Print (str ''[1/2] Testing: http://a''), Probe (str ''http://a''),
     Print (str ''  '' @ [8594] @ str '' OK''), Sleep,
     Print (str ''[2/2] Testing: http://b''), Probe (str ''http://b''),
     Print (str ''  '' @ [8594] @ str '' FAILED''), Sleep],
    Inr [(str ''#EXTINF:-1,A'', str ''http://a'')])"
  by (simp add: probe_loop_Cons request_eval demo_env_def string_eval str_nat_digit)

lemma demo_writable: "writable demo_env p"
  by (simp add: demo_env_def)

lemma demo_trace:
  "clean_m3u demo_env (str ''in'') (str ''out'') None =
   ([Read_file (str ''in''), Print (str ''Loaded 2 channels from in''),
     Print (str ''[1/2] Testing: http://a''), Probe (str ''http://a''),
     Print (str ''  '' @ [8594] @ str '' OK''), Sleep,
     Print (str ''[2/2] Testing: http://b''), Probe (str ''http://b''),
     Print (str ''  '' @ [8594] @ str '' FAILED''), Sleep,
     Print ([10] @ str ''Working channels: 1''),
     Open_write (str ''out''),
     Write (str ''#EXTM3U x'' @ [10]), Write (str ''#EXTINF:-1,A'' @ [10]),
     Write (str ''http://a'' @ [10]),
     Print (str ''Cleaned playlist written to: out'')],
    None)"
proof -
  have len: "length [(str ''#EXTINF:-1,A'', str ''http://a''),
      (str ''#EXTINF:-1,B'', str ''http://b'')] = 2"
    by simp
  show ?thesis
    unfolding clean_m3u_parsed[OF demo_parse] len demo_probe_loop
    by (simp add: demo_writable playlist_writes_def ensure_marker_def str_nat_digit string_eval)
qed



lemma relative_parse:
  "parse_m3u (files relative_env) (str ''in'') = Inr ([], [(str ''#EXTINF:-1,A'', str ''stream.ts'')])"
proof -
  have "read_lines relative_text = [str ''#EXTINF:-1,A'', str ''stream.ts'']"
    by (simp add: relative_text_def read_lines_def rstrip_nl_def str_def)
  then have "parse_tail False (read_lines relative_text) =
      ([], [(str ''#EXTINF:-1,A'', str ''stream.ts'')])"
    by (simp add: parse_tail_cases string_eval)
  then show ?thesis
    by (simp add: parse_m3u_def relative_env_def demo_env_def parse_lines_tail)
qed

lemma crlf_joined:
  "crlf_text = join_crlf [str ''#EXTM3U'', str ''#EXTINF:-1,A'', str ''http://a'']"
  by (simp add: crlf_text_def join_crlf_def)

lemma crlf_parse_lines:
  "parse_lines [str ''#EXTM3U'', str ''#EXTINF:-1,A'', str ''http://a''] =
     ([str ''#EXTM3U''], [(str ''#EXTINF:-1,A'', str ''http://a'')])"
  unfolding parse_lines_tail by (simp add: parse_tail_cases string_eval)

lemma crlf_files: "files crlf_env (str ''in'') = Some crlf_text"
  by (simp add: crlf_env_def)

lemma crlf_parse:
  "parse_m3u (files crlf_env) (str ''in'') =
     Inr ([str ''#EXTM3U''], [(str ''#EXTINF:-1,A'', str ''http://a'')])"
proof -
  have "read_lines crlf_text = [str ''#EXTM3U'', str ''#EXTINF:-1,A'', str ''http://a'']"
    by (simp add: crlf_text_def read_lines_def rstrip_nl_def str_def)
  then show ?thesis
    by (simp add: parse_m3u_def crlf_files crlf_parse_lines)
qed

lemma crlf_probe_loop:
  "probe_loop crlf_env None 1 1 [(str ''#EXTINF:-1,A'', str ''http://a'')] [] =
   ([Print (str ''[1/1] Testing: http://a''), Probe (str ''http://a''),
     Print (str ''  '' @ [8594] @ str '' OK''), Sleep],
    Inr [(str ''#EXTINF:-1,A'', str ''http://a'')])"
  by (simp add: probe_loop_Cons request_eval crlf_env_def demo_env_def string_eval str_nat_digit)

lemma crlf_probed:
  "probed (fst (clean_m3u crlf_env (str ''in'') (str ''out'') None)) = [str ''http://a'']"
proof -
  have len: "length [(str ''#EXTINF:-1,A'', str ''http://a'')] = 1" by simp
  show ?thesis
    unfolding clean_m3u_probed[OF crlf_parse] len crlf_probe_loop by simp
qed





section \<open>Verified properties\<close>

text \<open>
  C1, as stated: the first line of the file written is exactly \<open>#EXTM3U\<close>, also
  when the marker line of the input carries trailing text. It is not: the marker
  line \<open>#EXTM3U x\<close> of the input is the first line of the output.
\<close>

theorem first_line_with_attribute_counterexample:
  "written (fst (clean_m3u demo_env (str ''in'') (str ''out'') None)) =
     Some (str ''#EXTM3U x'' @ [10] @ str ''#EXTINF:-1,A'' @ [10] @ str ''http://a'' @ [10]) \<and>
   first_line (str ''#EXTM3U x'' @ [10] @ str ''#EXTINF:-1,A'' @ [10] @ str ''http://a'' @ [10]) =
     str ''#EXTM3U x'' \<and>
   str ''#EXTM3U x'' \<noteq> str ''#EXTM3U''"
  unfolding demo_trace by (simp add: written_def first_line_def str_def)

text \<open>
  C1, amended: when \<open>clean_m3u\<close> completes, the first line of the file written,
  once trimmed, starts with \<open>#EXTM3U\<close>. It is exactly \<open>#EXTM3U\<close> when the input
  has no header line or its first header line, trimmed, does not start with the
  marker; otherwise it is the first header line of the input as it stands.
\<close>

theorem first_line_starts_with_marker:
  assumes "parse_m3u (files e) inp = Inr (h, es)"
    and "clean_m3u e inp out m = (evs, None)"
  shows "\<exists>content. written evs = Some content \<and>
           startswith (strip (first_line content)) (str ''#EXTM3U'') \<and>
           first_line content =
             (if h = [] \<or> \<not> startswith (strip (hd h)) (str ''#EXTM3U'') then str ''#EXTM3U''
              else hd h)"
proof -
  from clean_m3u_completes[OF assms(2)] assms(1) obtain w where
    wr: "written evs = Some (concat (playlist_writes (ensure_marker h) w))"
    by auto
  let ?first = "if h = [] \<or> \<not> startswith (strip (hd h)) (str ''#EXTM3U'') then str ''#EXTM3U''
                else hd h"
  have "\<exists>rest. ensure_marker h = ?first # rest"
    by (cases h) (simp_all add: ensure_marker_def)
  then obtain rest where em: "ensure_marker h = ?first # rest" ..
  have clean: "10 \<notin> set ?first"
  proof (cases "h = [] \<or> \<not> startswith (strip (hd h)) (str ''#EXTM3U'')")
    case True
    then show ?thesis by (simp add: str_def)
  next
    case False
    then have "hd h \<in> set h" by simp
    with parse_m3u_lines_clean[OF assms(1)] False show ?thesis by auto
  qed
  have fl: "first_line (concat (playlist_writes (ensure_marker h) w)) = ?first"
    unfolding em playlist_writes_first by (rule first_line_terminated[OF clean])
  have "startswith (strip ?first) (str ''#EXTM3U'')"
    by (simp add: string_eval)
  with wr fl show ?thesis by simp
qed

theorem first_line_starts_with_marker_witness:
  "parse_m3u (files demo_env) (str ''in'') =
     Inr ([str ''#EXTM3U x''],
          [(str ''#EXTINF:-1,A'', str ''http://a''), (str ''#EXTINF:-1,B'', str ''http://b'')]) \<and>
   snd (clean_m3u demo_env (str ''in'') (str ''out'') None) = None \<and>
   (\<exists>content. written (fst (clean_m3u demo_env (str ''in'') (str ''out'') None)) = Some content \<and>
      startswith (strip (first_line content)) (str ''#EXTM3U'') \<and>
      first_line content = str ''#EXTM3U x'')"
proof -
  have run: "clean_m3u demo_env (str ''in'') (str ''out'') None =
      (fst (clean_m3u demo_env (str ''in'') (str ''out'') None), None)"
    by (simp add: demo_trace)
  have "\<not> ([str ''#EXTM3U x''] = [] \<or> \<not> startswith (strip (hd [str ''#EXTM3U x''])) (str ''#EXTM3U''))"
    by (simp add: string_eval)
  moreover have "snd (clean_m3u demo_env (str ''in'') (str ''out'') None) = None"
    by (simp add: demo_trace)
  ultimately show ?thesis
    using first_line_starts_with_marker[OF demo_parse run] demo_parse by simp
qed

text \<open>
  C2. \<open>test_url\<close> is to return a boolean for every URL and let no exception out.
  For the URL line \<open>stream.ts\<close>, which has no scheme, the request constructor
  raises \<open>ValueError\<close> before the \<open>try\<close> statement is entered: \<open>test_url\<close>
  raises, whatever the network does, and a playlist with that URL line ends
  \<open>clean_m3u\<close> with the exception, before any output is written.
\<close>

theorem test_url_raises_without_scheme:
  "test_url ok opener (str ''stream.ts'') timeout = Inl ValueError \<and>
   clean_m3u relative_env (str ''in'') (str ''out'') None =
     ([Read_file (str ''in''), Print (str ''Loaded 1 channels from in''),
       Print (str ''[1/1] Testing: stream.ts''), Probe (str ''stream.ts'')],
      Some ValueError) \<and>
   written (fst (clean_m3u relative_env (str ''in'') (str ''out'') None)) = None"
proof -
  have t: "test_url ok opener (str ''stream.ts'') timeout = Inl ValueError" for ok opener timeout
    by (simp add: request_eval string_eval)
  have loop: "probe_loop relative_env None 1 1 [(str ''#EXTINF:-1,A'', str ''stream.ts'')] [] =
      ([Print (str ''[1/1] Testing: stream.ts''), Probe (str ''stream.ts'')], Inl ValueError)"
    by (simp add: probe_loop_Cons request_eval string_eval str_nat_digit)
  have len: "length [(str ''#EXTINF:-1,A'', str ''stream.ts'')] = 1" by simp
  have run: "clean_m3u relative_env (str ''in'') (str ''out'') None =
     ([Read_file (str ''in''), Print (str ''Loaded 1 channels from in''),
       Print (str ''[1/1] Testing: stream.ts''), Probe (str ''stream.ts'')],
      Some ValueError)"
    unfolding clean_m3u_parsed[OF relative_parse] len loop
    by (simp add: str_nat_digit str_def)
  show ?thesis unfolding run using t by (simp add: written_def)
qed

text \<open>
  C3. When \<open>clean_m3u\<close> completes, whatever the probes answered, the surviving
  entries (the final \<open>working_entries\<close> of the loop) are a subsequence of the parsed
  entries, in the same order, so they are at most as many; the file written is the
  header lines followed by each surviving entry as its metadata line and its URL
  line, unchanged, each ended by a line feed.
\<close>

theorem survivors_subsequence:
  assumes "parse_m3u (files e) inp = Inr (h, es)"
    and "clean_m3u e inp out m = (evs, None)"
  shows "\<exists>w. snd (probe_loop e m (length es) 1 es []) = Inr w \<and>
           subseq w es \<and> length w \<le> length es \<and>
           written evs =
             Some (concat (map (\<lambda>line. line @ [10]) (ensure_marker h)) @
                   concat (map (\<lambda>(extinf, url). extinf @ [10] @ url @ [10]) w))"
proof -
  from clean_m3u_completes[OF assms(2)] assms(1) obtain w where
    w: "snd (probe_loop e m (length es) 1 es []) = Inr w"
    and wr: "written evs = Some (concat (playlist_writes (ensure_marker h) w))"
    by auto
  from probe_loop_result[OF w] have "subseq w (within_limit m 1 es)" by auto
  with within_limit_subseq[of m 1 es] have sub: "subseq w es"
    using subseq_order.trans by blast
  then have len: "length w \<le> length es" by (rule list_emb_length)
  have "concat (concat (map (\<lambda>(extinf, url). [extinf @ [10], url @ [10]]) w)) =
        concat (map (\<lambda>(extinf, url). extinf @ [10] @ url @ [10]) w)"
    by (induction w) auto
  then have "concat (playlist_writes (ensure_marker h) w) =
      concat (map (\<lambda>line. line @ [10]) (ensure_marker h)) @
      concat (map (\<lambda>(extinf, url). extinf @ [10] @ url @ [10]) w)"
    by (simp add: playlist_writes_def)
  with w wr sub len show ?thesis by auto
qed

theorem survivors_subsequence_witness:
  "parse_m3u (files demo_env) (str ''in'') =
     Inr ([str ''#EXTM3U x''],
          [(str ''#EXTINF:-1,A'', str ''http://a''), (str ''#EXTINF:-1,B'', str ''http://b'')]) \<and>
   snd (clean_m3u demo_env (str ''in'') (str ''out'') None) = None \<and>
   (\<exists>w. snd (probe_loop demo_env None 2 1
             [(str ''#EXTINF:-1,A'', str ''http://a''), (str ''#EXTINF:-1,B'', str ''http://b'')] []) =
           Inr w \<and>
        w = [(str ''#EXTINF:-1,A'', str ''http://a'')] \<and>
        subseq w [(str ''#EXTINF:-1,A'', str ''http://a''), (str ''#EXTINF:-1,B'', str ''http://b'')] \<and>
        written (fst (clean_m3u demo_env (str ''in'') (str ''out'') None)) =
          Some (concat (map (\<lambda>line. line @ [10]) (ensure_marker [str ''#EXTM3U x''])) @
                concat (map (\<lambda>(extinf, url). extinf @ [10] @ url @ [10]) w)))"
proof -
  have run: "clean_m3u demo_env (str ''in'') (str ''out'') None =
      (fst (clean_m3u demo_env (str ''in'') (str ''out'') None), None)"
    by (simp add: demo_trace)
  have res: "snd (clean_m3u demo_env (str ''in'') (str ''out'') None) = None"
    by (simp add: demo_trace)
  from survivors_subsequence[OF demo_parse run] obtain w where
    w: "snd (probe_loop demo_env None
          (length [(str ''#EXTINF:-1,A'', str ''http://a''), (str ''#EXTINF:-1,B'', str ''http://b'')])
          1 [(str ''#EXTINF:-1,A'', str ''http://a''), (str ''#EXTINF:-1,B'', str ''http://b'')] []) =
        Inr w"
      "subseq w [(str ''#EXTINF:-1,A'', str ''http://a''), (str ''#EXTINF:-1,B'', str ''http://b'')]"
      "written (fst (clean_m3u demo_env (str ''in'') (str ''out'') None)) =
          Some (concat (map (\<lambda>line. line @ [10]) (ensure_marker [str ''#EXTM3U x''])) @
                concat (map (\<lambda>(extinf, url). extinf @ [10] @ url @ [10]) w))"
    by blast
  have len: "length [(str ''#EXTINF:-1,A'', str ''http://a''),
      (str ''#EXTINF:-1,B'', str ''http://b'')] = 2"
    by simp
  from w(1) have "w = [(str ''#EXTINF:-1,A'', str ''http://a'')]"
    unfolding len demo_probe_loop by simp
  with w demo_parse res show ?thesis unfolding len by blast
qed



text \<open>
  C5. Parsing round-trips: when \<open>parse_m3u\<close> gives a header and entries, writing
  the header lines and then each entry as its metadata line and its URL line, each
  ended by a line feed, and parsing that text again gives the same header and
  entries. This holds for every readable input.
\<close>

theorem parse_serialize_roundtrip:
  assumes "parse_m3u fs path = Inr (header_lines, entries)"
  shows "parse_m3u (fs(path' \<mapsto> concat (playlist_writes header_lines entries))) path' =
           Inr (header_lines, entries)"
proof -
  from assms obtain content where
    p: "parse_tail False (read_lines content) = (header_lines, entries)"
    unfolding parse_m3u_Inr by metis
  have h: "header_lines = fst (parse_tail False (read_lines content))"
    and e: "entries = snd (parse_tail False (read_lines content))"
    by (simp_all add: p)
  have plain: "\<forall>l\<in>set header_lines. \<not> is_extinf l"
    unfolding h by (auto dest: parse_tail_header_plain)
  have ok: "\<forall>(x, u)\<in>set entries. is_extinf x \<and> \<not> skippable u"
    unfolding e by (auto dest: parse_tail_entries)
  have "\<forall>l\<in>set (header_lines @ entry_lines entries). l \<in> set (read_lines content)"
    using parse_tail_header_subset[of False "read_lines content"]
    unfolding h e by (auto dest!: entry_lines_subset parse_tail_entries_subset)
  then have "\<forall>l\<in>set (header_lines @ entry_lines entries). 10 \<notin> set l \<and> 13 \<notin> set l"
    using read_lines_clean by blast
  from read_lines_join[OF this] parse_tail_roundtrip[OF plain ok] show ?thesis
    by (simp add: parse_m3u_def parse_lines_tail playlist_writes_join)
qed

theorem parse_serialize_roundtrip_witness:
  "parse_m3u (files demo_env) (str ''in'') =
     Inr ([str ''#EXTM3U x''],
          [(str ''#EXTINF:-1,A'', str ''http://a''), (str ''#EXTINF:-1,B'', str ''http://b'')]) \<and>
   parse_m3u ((files demo_env)(str ''out'' \<mapsto> concat (playlist_writes [str ''#EXTM3U x'']
          [(str ''#EXTINF:-1,A'', str ''http://a''), (str ''#EXTINF:-1,B'', str ''http://b'')])))
       (str ''out'') =
     Inr ([str ''#EXTM3U x''],
          [(str ''#EXTINF:-1,A'', str ''http://a''), (str ''#EXTINF:-1,B'', str ''http://b'')])"
  using parse_serialize_roundtrip[OF demo_parse, of "str ''out''"] demo_parse by simp

text \<open>
  C6. Every entry that \<open>parse_m3u\<close> produces has a metadata line whose trimmed form
  starts with \<open>#EXTINF\<close> and a URL line that is not empty, whose trimmed form is not
  blank and does not start with \<open>#\<close>.
\<close>

theorem parse_m3u_entry_invariant:
  assumes "parse_m3u fs path = Inr (header_lines, entries)"
    and "(extinf, url) \<in> set entries"
  shows "startswith (strip extinf) (str ''#EXTINF'') \<and> url \<noteq> [] \<and>
         strip url \<noteq> [] \<and> \<not> startswith (strip url) (str ''#'')"
proof -
  from assms(1) obtain content where
    "(header_lines, entries) = parse_tail False (read_lines content)"
    unfolding parse_m3u_Inr by blast
  then have "entries = snd (parse_tail False (read_lines content))"
    by (metis snd_conv)
  with assms(2) have "is_extinf extinf \<and> \<not> skippable url"
    by (auto dest: parse_tail_entries)
  then show ?thesis
    by (auto simp: is_extinf_def skippable_def strip_Nil)
qed

theorem parse_m3u_entry_invariant_witness:
  "parse_m3u (files demo_env) (str ''in'') =
     Inr ([str ''#EXTM3U x''],
          [(str ''#EXTINF:-1,A'', str ''http://a''), (str ''#EXTINF:-1,B'', str ''http://b'')]) \<and>
   (str ''#EXTINF:-1,B'', str ''http://b'') \<in>
     set [(str ''#EXTINF:-1,A'', str ''http://a''), (str ''#EXTINF:-1,B'', str ''http://b'')] \<and>
   startswith (strip (str ''#EXTINF:-1,B'')) (str ''#EXTINF'') \<and> str ''http://b'' \<noteq> [] \<and>
   strip (str ''http://b'') \<noteq> [] \<and> \<not> startswith (strip (str ''http://b'')) (str ''#'')"
proof -
  have mem: "(str ''#EXTINF:-1,B'', str ''http://b'') \<in>
     set [(str ''#EXTINF:-1,A'', str ''http://a''), (str ''#EXTINF:-1,B'', str ''http://b'')]"
    by simp
  from parse_m3u_entry_invariant[OF demo_parse mem] demo_parse mem show ?thesis by blast
qed

text \<open>
  C7. When the metadata line at index \<open>i\<close> is followed only by blank and comment
  lines up to the end of the file, the loop adds no entry for it and goes on at
  \<open>i + 1\<close>; the whole parse is that of the lines before \<open>i\<close>, so the line gives
  no entry, and \<open>parse_m3u\<close> returns a result.
\<close>

theorem dangling_extinf_discarded:
  assumes "i < length lines"
    and "is_extinf (lines ! i)"
    and "\<forall>j. i < j \<and> j < length lines \<longrightarrow> skippable (lines ! j)"
  shows "parse_loop lines i seen hs es = parse_loop lines (i + 1) True hs es \<and>
         parse_lines lines = parse_lines (take i lines) \<and>
         (fs path = Some content \<and> read_lines content = lines \<longrightarrow>
            parse_m3u fs path = Inr (parse_lines (take i lines)))"
proof -
  let ?rest = "drop (Suc i) lines"
  have split: "lines = take i lines @ lines ! i # ?rest"
    using assms(1) by (simp add: id_take_nth_drop)
  have split': "lines = take (Suc i) lines @ ?rest" by simp
  have len: "length (take i lines) = i" "length (take (Suc i) lines) = i + 1"
    using assms(1) by simp_all
  have "\<forall>l\<in>set ?rest. skippable l"
  proof
    fix l assume "l \<in> set ?rest"
    then obtain n where n: "n < length ?rest" "l = ?rest ! n" by (auto simp: in_set_conv_nth)
    with assms(3) show "skippable l" by simp
  qed
  then have none: "next_url ?rest = None" by (simp add: next_url_None_iff)
  have a: "parse_loop lines i seen hs es =
      (hs @ fst (parse_tail seen (lines ! i # ?rest)), es @ snd (parse_tail seen (lines ! i # ?rest)))"
    using parse_loop_tail[of "take i lines" "lines ! i # ?rest" seen hs es] split len by simp
  have b: "parse_loop lines (i + 1) True hs es =
      (hs @ fst (parse_tail True ?rest), es @ snd (parse_tail True ?rest))"
    using parse_loop_tail[of "take (Suc i) lines" ?rest True hs es] split' len by simp
  have step: "parse_loop lines i seen hs es = parse_loop lines (i + 1) True hs es"
    unfolding a b by (simp add: parse_tail_Dangling[OF assms(2) none])
  have "parse_tail False (take i lines @ lines ! i # ?rest) = parse_tail False (take i lines)"
    by (rule parse_tail_dangling_suffix[OF assms(2) none])
  with split have whole: "parse_lines lines = parse_lines (take i lines)"
    by (simp add: parse_lines_tail)
  then have "fs path = Some content \<and> read_lines content = lines \<longrightarrow>
      parse_m3u fs path = Inr (parse_lines (take i lines))"
    by (simp add: parse_m3u_def)
  with step whole show ?thesis by blast
qed

theorem dangling_extinf_discarded_witness:
  "2 < length (read_lines orphan_text) \<and>
   is_extinf (read_lines orphan_text ! 2) \<and>
   length (read_lines orphan_text) = 4 \<and>
   skippable (read_lines orphan_text ! 3) \<and>
   parse_loop (read_lines orphan_text) 2 True [] [(str ''#EXTINF:-1,A'', str ''http://a'')] =
     parse_loop (read_lines orphan_text) (2 + 1) True [] [(str ''#EXTINF:-1,A'', str ''http://a'')] \<and>
   parse_lines (read_lines orphan_text) = ([], [(str ''#EXTINF:-1,A'', str ''http://a'')]) \<and>
   parse_m3u [str ''in'' \<mapsto> orphan_text] (str ''in'') =
     Inr ([], [(str ''#EXTINF:-1,A'', str ''http://a'')])"
proof -
  have len: "2 < length (read_lines orphan_text)" by (simp add: orphan_lines)
  have ext: "is_extinf (read_lines orphan_text ! 2)" by (simp add: orphan_lines string_eval)
  have rest: "\<forall>j. 2 < j \<and> j < length (read_lines orphan_text) \<longrightarrow>
      skippable (read_lines orphan_text ! j)"
  proof (intro allI impI)
    fix j assume "2 < j \<and> j < length (read_lines orphan_text)"
    then have "j = 3" by (simp add: orphan_lines)
    then show "skippable (read_lines orphan_text ! j)" by (simp add: orphan_lines string_eval)
  qed
  from dangling_extinf_discarded[OF len ext rest, of True "[]"
      "[(str ''#EXTINF:-1,A'', str ''http://a'')]" "[str ''in'' \<mapsto> orphan_text]" "str ''in''"
      orphan_text]
    len ext orphan_parse_before
  show ?thesis by (simp add: orphan_lines string_eval)
qed

text \<open>
  C8. An empty file gives an empty header and no entries; a file without any line
  whose trimmed form starts with \<open>#EXTINF\<close> gives all its lines, as read and in
  order, as the header, and no entries.
\<close>

theorem parse_empty_and_headers_only:
  "(fs path = Some [] \<longrightarrow> parse_m3u fs path = Inr ([], [])) \<and>
   (fs path = Some content \<and> (\<forall>l\<in>set (read_lines content). \<not> is_extinf l) \<longrightarrow>
      parse_m3u fs path = Inr (read_lines content, []))"
  by (auto simp: parse_m3u_def parse_lines_tail parse_tail_no_extinf read_lines_def)

theorem parse_empty_and_headers_only_witness:
  "[str ''in'' \<mapsto> []] (str ''in'') = Some [] \<and>
   parse_m3u [str ''in'' \<mapsto> []] (str ''in'') = Inr ([], []) \<and>
   [str ''in'' \<mapsto> plain_text] (str ''in'') = Some plain_text \<and>
   read_lines plain_text = [str ''#EXTM3U'', str ''notes''] \<and>
   \<not> is_extinf (str ''#EXTM3U'') \<and> \<not> is_extinf (str ''notes'') \<and>
   parse_m3u [str ''in'' \<mapsto> plain_text] (str ''in'') = Inr ([str ''#EXTM3U'', str ''notes''], [])"
proof -
  have plain: "\<forall>l\<in>set (read_lines plain_text). \<not> is_extinf l"
    by (simp add: plain_lines string_eval)
  from parse_empty_and_headers_only[of "[str ''in'' \<mapsto> []]" "str ''in''" "[]"]
    parse_empty_and_headers_only[of "[str ''in'' \<mapsto> plain_text]" "str ''in''" plain_text]
    plain plain_lines
  show ?thesis by (simp add: string_eval)
qed



text \<open>
  C10, as stated: for a file with CRLF line ends every stored line keeps a trailing
  carriage return, and the URL goes to \<open>test_url\<close> with it. It does not: the file
  is opened in text mode with universal newlines, so the lines stored and the URL
  probed have no carriage return.
\<close>

theorem crlf_lines_counterexample:
  "files crlf_env (str ''in'') =
     Some (str ''#EXTM3U'' @ [13, 10] @ str ''#EXTINF:-1,A'' @ [13, 10] @ str ''http://a'' @ [13, 10]) \<and>
   parse_m3u (files crlf_env) (str ''in'') =
     Inr ([str ''#EXTM3U''], [(str ''#EXTINF:-1,A'', str ''http://a'')]) \<and>
   probed (fst (clean_m3u crlf_env (str ''in'') (str ''out'') None)) = [str ''http://a''] \<and>
   last (str ''#EXTM3U'') \<noteq> 13 \<and> last (str ''#EXTINF:-1,A'') \<noteq> 13 \<and> last (str ''http://a'') \<noteq> 13"
  using crlf_files crlf_parse crlf_probed by (simp add: crlf_text_def str_def)

text \<open>
  C10, amended: for a file whose lines end in CRLF, reading turns each CRLF into a
  line feed, which \<open>parse_m3u\<close> strips: the parse is that of the lines without
  their line ends, and no stored header line, metadata line or URL line holds a
  carriage return. \<open>clean_m3u\<close> gives the stored URL lines as they are to
  \<open>test_url\<close>, in order, and writes the stored lines of the surviving entries as
  they are.
\<close>

theorem crlf_translated_on_read:
  assumes "\<forall>l\<in>set ls. 10 \<notin> set l \<and> 13 \<notin> set l"
    and "files e inp = Some (join_crlf ls)"
  shows "parse_m3u (files e) inp = Inr (parse_lines ls) \<and>
         (\<forall>l\<in>set (fst (parse_lines ls)). 13 \<notin> set l) \<and>
         (\<forall>(extinf, url)\<in>set (snd (parse_lines ls)). 13 \<notin> set extinf \<and> 13 \<notin> set url) \<and>
         prefix (probed (fst (clean_m3u e inp out m))) (map snd (snd (parse_lines ls))) \<and>
         (snd (clean_m3u e inp out m) = None \<longrightarrow>
            (\<exists>w. subseq w (snd (parse_lines ls)) \<and>
                 written (fst (clean_m3u e inp out m)) =
                   Some (concat (playlist_writes (ensure_marker (fst (parse_lines ls))) w))))"
proof -
  obtain h es where hes: "parse_lines ls = (h, es)" by (cases "parse_lines ls")
  have p: "parse_m3u (files e) inp = Inr (h, es)"
    using assms(2) read_lines_join_crlf[OF assms(1)] hes by (simp add: parse_m3u_def)
  from parse_m3u_lines_clean[OF p]
  have clean: "\<forall>l\<in>set h. 13 \<notin> set l" "\<forall>(extinf, url)\<in>set es. 13 \<notin> set extinf \<and> 13 \<notin> set url"
    by auto
  have "prefix (probed (fst (probe_loop e m (length es) 1 es []))) (map snd (within_limit m 1 es))"
    by (rule probe_loop_probed_prefix)
  moreover have "prefix (map snd (within_limit m 1 es)) (map snd es)"
    by (rule map_mono_prefix[OF within_limit_prefix])
  ultimately have pr: "prefix (probed (fst (clean_m3u e inp out m))) (map snd es)"
    unfolding clean_m3u_probed[OF p] by (rule prefix_order.trans)
  have wr: "\<exists>w. subseq w es \<and>
      written (fst (clean_m3u e inp out m)) = Some (concat (playlist_writes (ensure_marker h) w))"
    if "snd (clean_m3u e inp out m) = None"
  proof -
    from that have "clean_m3u e inp out m = (fst (clean_m3u e inp out m), None)"
      by (metis prod.collapse)
    from clean_m3u_completes[OF this] p obtain w where
      w: "snd (probe_loop e m (length es) 1 es []) = Inr w"
      and wt: "written (fst (clean_m3u e inp out m)) =
                 Some (concat (playlist_writes (ensure_marker h) w))"
      by auto
    from probe_loop_result[OF w] have "subseq w (within_limit m 1 es)" by auto
    with within_limit_subseq[of m 1 es] have "subseq w es"
      using subseq_order.trans by blast
    with wt show ?thesis by blast
  qed
  from p clean pr wr show ?thesis unfolding hes by simp
qed

theorem crlf_translated_on_read_witness:
  "files crlf_env (str ''in'') =
     Some (join_crlf [str ''#EXTM3U'', str ''#EXTINF:-1,A'', str ''http://a'']) \<and>
   parse_lines [str ''#EXTM3U'', str ''#EXTINF:-1,A'', str ''http://a''] =
     ([str ''#EXTM3U''], [(str ''#EXTINF:-1,A'', str ''http://a'')]) \<and>
   parse_m3u (files crlf_env) (str ''in'') =
     Inr ([str ''#EXTM3U''], [(str ''#EXTINF:-1,A'', str ''http://a'')]) \<and>
   13 \<notin> set (str ''#EXTM3U'') \<and> 13 \<notin> set (str ''#EXTINF:-1,A'') \<and> 13 \<notin> set (str ''http://a'') \<and>
   probed (fst (clean_m3u crlf_env (str ''in'') (str ''out'') None)) = [str ''http://a''] \<and>
   prefix (probed (fst (clean_m3u crlf_env (str ''in'') (str ''out'') None)))
     (map snd [(str ''#EXTINF:-1,A'', str ''http://a'')])"
proof -
  have lines: "\<forall>l\<in>set [str ''#EXTM3U'', str ''#EXTINF:-1,A'', str ''http://a'']. 10 \<notin> set l \<and> 13 \<notin> set l"
    by (simp add: str_def)
  have src: "files crlf_env (str ''in'') =
      Some (join_crlf [str ''#EXTM3U'', str ''#EXTINF:-1,A'', str ''http://a''])"
    using crlf_files crlf_joined by simp
  from crlf_translated_on_read[OF lines src, of "str ''out''" None]
    src crlf_parse_lines crlf_probed
  show ?thesis by (simp add: str_def)
qed

end
